theory Spec2Isabelle
  imports Complex_Main "HOL-Library.Multiset" "HOL-Library.Log_Nat"
begin

section \<open>Errors and the model collaborator\<close>

text \<open>
  The exceptions that the modelled part of \<^verbatim>\<open>nnet_rbm.py\<close> can raise, either by its
  own \<^verbatim>\<open>assert\<close> statements or through the NumPy calls it makes.
\<close>

datatype error = AssertionError | IndexError | ValueError | AttributeError | OverflowError

type_synonym row = "nat list"

text \<open>
  What is handed to a compiled model function: a two-dimensional array (a list of
  n-gram rows) or a one-dimensional one (a single row).
\<close>

datatype tensor = Matrix "row list" | Vector row

text \<open>
  The LRBM is an external collaborator; only its two scoring functions are used here.
  Floating-point scores are idealised as reals.
\<close>

record lrbm =
  probability :: "tensor \<Rightarrow> real list"
  unnp :: "tensor \<Rightarrow> real list"

text \<open>The accumulators that the callbacks of \<^verbatim>\<open>main\<close> close over.
  An entry \<open>None\<close> stands for NumPy's NaN (the mean of an empty array).\<close>

record trace =
  x_valid_ll :: "real option list"
  x_valid_ll_ratio :: "real option list"
  sent_challenge :: "real option list"

section \<open>The minibatch callback\<close>

text \<open>
  \<^verbatim>\<open>mnb_callback\<close> closes over \<^verbatim>\<open>x_valid\<close>, \<^verbatim>\<open>x_valid_r\<close> and the two lists it appends
  to; here they are arguments, and the result carries the exception, if any, and the
  lists as the call leaves them.
\<close>

definition LOG_LIK_SIZE :: nat where
  "LOG_LIK_SIZE = 100"

definition np_mean :: "real list \<Rightarrow> real option" where
  "np_mean xs = (if xs = [] then None else Some (sum_list xs / real (length xs)))"

definition np_log :: "real list \<Rightarrow> real list" where
  "np_log xs = map ln xs"

text \<open>\<^verbatim>\<open>x[i]\<close> for a non-negative integer \<open>i\<close> on the first axis.\<close>

definition getitem :: "row list \<Rightarrow> nat \<Rightarrow> error + row" where
  "getitem x i = (if i < length x then Inr (x ! i) else Inl IndexError)"

definition mnb_callback ::
  "row list \<Rightarrow> row list \<Rightarrow> lrbm \<Rightarrow> nat \<Rightarrow> nat \<Rightarrow> trace \<Rightarrow> (error + unit) \<times> trace" where
  "mnb_callback x_valid x_valid_r m epoch mnb tr =
     (if mnb mod 10 \<noteq> 9 then (Inr (), tr)
      else case getitem x_valid LOG_LIK_SIZE of
        Inl e \<Rightarrow> (Inl e, tr)
      | Inr r \<Rightarrow>
          let tr1 = tr\<lparr>x_valid_ll :=
                x_valid_ll tr @ [np_mean (np_log (probability m (Vector r)))]\<rparr>;
              tr2 = tr1\<lparr>x_valid_ll_ratio :=
                x_valid_ll_ratio tr1 @
                  [np_mean (np_log (map2 (/) (unnp m (Matrix x_valid))
                                            (unnp m (Matrix x_valid_r))))]\<rparr>
          in (Inr (), tr2))"

section \<open>The epoch callback\<close>

text \<open>
  The callback first logs the mean and deviation of the model's parameters; logging is
  not modelled. Then it scores every candidate of every group, takes \<^verbatim>\<open>np.argmax\<close>
  of each group's scores and appends the share of groups answered correctly.

  \<^verbatim>\<open>np.argmax\<close> scans from the left and moves only on a strictly larger entry; on an
  empty sequence it raises \<^verbatim>\<open>ValueError\<close>.
\<close>

fun argmax_loop :: "real list \<Rightarrow> nat \<Rightarrow> real \<Rightarrow> nat \<Rightarrow> nat" where
  "argmax_loop [] i mp idx = idx"
| "argmax_loop (v # vs) i mp idx =
     (if mp < v then argmax_loop vs (Suc i) v i else argmax_loop vs (Suc i) mp idx)"

definition np_argmax :: "real list \<Rightarrow> error + nat" where
  "np_argmax xs = (case xs of [] \<Rightarrow> Inl ValueError | v # vs \<Rightarrow> Inr (argmax_loop vs 1 v 0))"

definition candidate_score :: "lrbm \<Rightarrow> row list \<Rightarrow> real" where
  "candidate_score m q = sum_list (np_log (unnp m (Matrix q)))"

definition qg_log_lik :: "lrbm \<Rightarrow> row list list list \<Rightarrow> real list list" where
  "qg_log_lik m q_groups = map (\<lambda>q_g. map (candidate_score m) q_g) q_groups"

fun map_argmax :: "real list list \<Rightarrow> error + nat list" where
  "map_argmax [] = Inr []"
| "map_argmax (s # ss) =
     (case np_argmax s of
        Inl e \<Rightarrow> Inl e
      | Inr p \<Rightarrow> (case map_argmax ss of Inl e \<Rightarrow> Inl e | Inr ps \<Rightarrow> Inr (p # ps)))"

definition predictions :: "lrbm \<Rightarrow> row list list list \<Rightarrow> error + nat list" where
  "predictions m q_groups = map_argmax (qg_log_lik m q_groups)"

text \<open>
  \<^verbatim>\<open>(np.array(predictions) == answers).mean()\<close> on one-dimensional operands: lengths
  that are equal, or one of them 1, broadcast; otherwise the comparison yields the plain
  Python \<^verbatim>\<open>False\<close>, which has no \<^verbatim>\<open>mean\<close>.
\<close>

definition np_eq :: "nat list \<Rightarrow> int list \<Rightarrow> error + bool list" where
  "np_eq ps ans =
     (if length ps = length ans then Inr (map2 (\<lambda>p a. int p = a) ps ans)
      else if length ans = 1 then Inr (map (\<lambda>p. int p = hd ans) ps)
      else if length ps = 1 then Inr (map (\<lambda>a. int (hd ps) = a) ans)
      else Inl AttributeError)"

definition bool_mean :: "bool list \<Rightarrow> real option" where
  "bool_mean bs = np_mean (map (\<lambda>b. if b then 1 else 0) bs)"

definition epoch_callback ::
  "row list list list \<Rightarrow> int list \<Rightarrow> lrbm \<Rightarrow> nat \<Rightarrow> trace \<Rightarrow> (error + unit) \<times> trace" where
  "epoch_callback q_groups answers m epoch tr =
     (case predictions m q_groups of
        Inl e \<Rightarrow> (Inl e, tr)
      | Inr ps \<Rightarrow>
          (case np_eq ps answers of
             Inl e \<Rightarrow> (Inl e, tr)
           | Inr bs \<Rightarrow> (Inr (), tr\<lparr>sent_challenge := sent_challenge tr @ [bool_mean bs]\<rparr>)))"

section \<open>Python floats\<close>

text \<open>
  The split fractions are Python floats, and the split indices are computed with them
  (\<^verbatim>\<open>int(x.shape[0] * (1. - validation - test))\<close>), so the arithmetic is modelled as
  IEEE 754 binary64: every operation is the exact rational result rounded to the nearest
  value with a 53-bit significand, ties to even, with gradual underflow below
  \<open>2 powi - 1022\<close> and overflow to infinity.

  \<open>ilog2 x\<close> is the binary exponent of a positive rational, \<open>rne\<close> rounds a rational to
  the nearest integer (ties to even), \<open>ulp x\<close> is the spacing of the binary64 grid around
  \<open>x\<close>, and \<open>fl\<close> rounds onto that grid.
\<close>

definition pow2 :: "int \<Rightarrow> rat" where
  "pow2 e = 2 powi e"

definition ilog2 :: "rat \<Rightarrow> int" where
  "ilog2 x = (let (p, q) = quotient_of x; d = bitlen p - bitlen q
              in if pow2 d \<le> x then d else d - 1)"

definition rne :: "rat \<Rightarrow> int" where
  "rne y = (let f = \<lfloor>y\<rfloor>; r = y - of_int f
            in if r < 1 / 2 then f else if 1 / 2 < r then f + 1
               else if even f then f else f + 1)"

definition ulp :: "rat \<Rightarrow> rat" where
  "ulp x = pow2 (max (ilog2 \<bar>x\<bar>) (- 1022) - 52)"

definition fl :: "rat \<Rightarrow> rat" where
  "fl x = (if x = 0 then 0 else of_int (rne (x / ulp x)) * ulp x)"


text \<open>
  A Python float: a finite value, one of the infinities, or NaN. \<open>to_float\<close> is the
  rounding of an exact result, also the reading of a decimal literal (\<^verbatim>\<open>0.05\<close> is
  \<open>to_float (1 / 20)\<close>).
\<close>

datatype pyfloat = Fin rat | PInf | NInf | NaN

definition to_float :: "rat \<Rightarrow> pyfloat" where
  "to_float x = (let y = fl x
                 in if 2 ^ 1024 \<le> y then PInf else if y \<le> - (2 ^ 1024) then NInf else Fin y)"

fun fneg :: "pyfloat \<Rightarrow> pyfloat" where
  "fneg (Fin a) = Fin (- a)"
| "fneg PInf = NInf"
| "fneg NInf = PInf"
| "fneg NaN = NaN"

fun fadd :: "pyfloat \<Rightarrow> pyfloat \<Rightarrow> pyfloat" where
  "fadd (Fin a) (Fin b) = to_float (a + b)"
| "fadd NaN b = NaN"
| "fadd a NaN = NaN"
| "fadd PInf NInf = NaN"
| "fadd NInf PInf = NaN"
| "fadd PInf b = PInf"
| "fadd a PInf = PInf"
| "fadd NInf b = NInf"
| "fadd a NInf = NInf"

definition fsub :: "pyfloat \<Rightarrow> pyfloat \<Rightarrow> pyfloat" where
  "fsub a b = fadd a (fneg b)"

fun fsign :: "pyfloat \<Rightarrow> int" where
  "fsign (Fin a) = (if a < 0 then - 1 else if 0 < a then 1 else 0)"
| "fsign PInf = 1"
| "fsign NInf = - 1"
| "fsign NaN = 0"

fun fmul :: "pyfloat \<Rightarrow> pyfloat \<Rightarrow> pyfloat" where
  "fmul (Fin a) (Fin b) = to_float (a * b)"
| "fmul NaN b = NaN"
| "fmul a NaN = NaN"
| "fmul a b = (if fsign a * fsign b = 0 then NaN else if 0 < fsign a * fsign b then PInf else NInf)"

text \<open>The comparisons \<^verbatim>\<open>a < b\<close> and \<^verbatim>\<open>a > b\<close>; any comparison with NaN is false.\<close>

fun flt :: "pyfloat \<Rightarrow> pyfloat \<Rightarrow> bool" where
  "flt (Fin a) (Fin b) = (a < b)"
| "flt NaN b = False"
| "flt a NaN = False"
| "flt a NInf = False"
| "flt PInf b = False"
| "flt NInf b = True"
| "flt a PInf = True"

definition fgt :: "pyfloat \<Rightarrow> pyfloat \<Rightarrow> bool" where
  "fgt a b = flt b a"

text \<open>
  \<^verbatim>\<open>int(f)\<close> truncates towards zero and raises on an infinity or NaN. The product
  \<^verbatim>\<open>x.shape[0] * f\<close> first converts the integer to a float, which raises
  \<^verbatim>\<open>OverflowError\<close> when the integer is too large.
\<close>

fun py_int :: "pyfloat \<Rightarrow> error + int" where
  "py_int (Fin a) = Inr (if 0 \<le> a then \<lfloor>a\<rfloor> else \<lceil>a\<rceil>)"
| "py_int NaN = Inl ValueError"
| "py_int f = Inl OverflowError"

definition float_of_nat :: "nat \<Rightarrow> error + pyfloat" where
  "float_of_nat n = (case to_float (of_nat n) of
                       Fin a \<Rightarrow> Inr (Fin a) | f \<Rightarrow> Inl OverflowError)"

text \<open>A finite float is a binary64 value when rounding leaves it unchanged.\<close>

definition is_double :: "pyfloat \<Rightarrow> bool" where
  "is_double f = (case f of Fin a \<Rightarrow> to_float a = Fin a | f \<Rightarrow> True)"

section \<open>The random generator\<close>

text \<open>
  A NumPy generator (\<^verbatim>\<open>RandomState\<close>, or the process-global one behind \<^verbatim>\<open>np.random\<close>)
  is abstracted to the sequence of raw numbers it will deliver; a draw takes the head.
  \<open>rk_interval mx\<close> draws an integer in \<open>[0, mx]\<close>, \<open>random_sample\<close> a number in
  \<open>[0, 1)\<close>.
\<close>

type_synonym rng = "nat \<Rightarrow> nat"

definition rk_interval :: "nat \<Rightarrow> rng \<Rightarrow> nat \<times> rng" where
  "rk_interval mx g = (g 0 mod Suc mx, \<lambda>i. g (Suc i))"

definition random_sample :: "rng \<Rightarrow> rat \<times> rng" where
  "random_sample g = (of_int (int (g 0) mod 2 ^ 53) / 2 ^ 53, \<lambda>i. g (Suc i))"

fun draw_n :: "(rng \<Rightarrow> 'a \<times> rng) \<Rightarrow> nat \<Rightarrow> rng \<Rightarrow> 'a list \<times> rng" where
  "draw_n d 0 g = ([], g)"
| "draw_n d (Suc n) g =
     (let (v, g1) = d g; (vs, g2) = draw_n d n g1 in (v # vs, g2))"

text \<open>
  \<^verbatim>\<open>shuffle\<close> is NumPy's Fisher-Yates loop: for \<open>i\<close> from \<open>n - 1\<close> down to 1, draw
  \<open>j\<close> in \<open>[0, i]\<close> and swap the entries at \<open>i\<close> and \<open>j\<close>, in place.
\<close>

fun shuffle_loop :: "nat \<Rightarrow> rng \<Rightarrow> 'a list \<Rightarrow> 'a list \<times> rng" where
  "shuffle_loop 0 g xs = (xs, g)"
| "shuffle_loop (Suc k) g xs =
     (let (j, g1) = rk_interval (Suc k) g
      in shuffle_loop k g1 (xs[Suc k := xs ! j, j := xs ! Suc k]))"

definition np_shuffle :: "'a list \<Rightarrow> rng \<Rightarrow> 'a list \<times> rng" where
  "np_shuffle xs g = shuffle_loop (length xs - 1) g xs"

text \<open>
  \<^verbatim>\<open>np.random.choice(a, size, p=p)\<close> for an integer \<open>a\<close>: it raises \<^verbatim>\<open>ValueError\<close>
  unless \<open>a\<close> is positive and \<open>p\<close>, when given, has \<open>a\<close> non-negative entries that sum
  to 1 within \<open>sqrt eps = 1 / 2 ^ 26\<close>. Without \<open>p\<close> it draws uniform integers below
  \<open>a\<close>; with \<open>p\<close> it draws uniform samples and looks each one up in the normalised
  cumulative sums (\<^verbatim>\<open>searchsorted\<close>, side right). The weights are taken as exact
  rationals.
\<close>

fun cumsum_from :: "rat \<Rightarrow> rat list \<Rightarrow> rat list" where
  "cumsum_from acc [] = []"
| "cumsum_from acc (p # ps) = (acc + p) # cumsum_from (acc + p) ps"

definition searchsorted_right :: "rat list \<Rightarrow> rat \<Rightarrow> nat" where
  "searchsorted_right cdf u = length (takeWhile (\<lambda>c. c \<le> u) cdf)"

definition choice :: "nat \<Rightarrow> nat \<Rightarrow> rat list option \<Rightarrow> rng \<Rightarrow> (error + nat list) \<times> rng" where
  "choice a sz p g =
     (if a = 0 then (Inl ValueError, g)
      else case p of
        None \<Rightarrow> (let (idx, g1) = draw_n (rk_interval (a - 1)) sz g in (Inr idx, g1))
      | Some pv \<Rightarrow>
          if length pv \<noteq> a then (Inl ValueError, g)
          else if list_ex (\<lambda>w. w < 0) pv then (Inl ValueError, g)
          else if 1 / 2 ^ 26 < \<bar>sum_list pv - 1\<bar> then (Inl ValueError, g)
          else
            let cdf = map (\<lambda>c. c / last (cumsum_from 0 pv)) (cumsum_from 0 pv);
                (us, g1) = draw_n random_sample sz g
            in (Inr (map (searchsorted_right cdf) us), g1))"

section \<open>Arrays\<close>

text \<open>
  Arrays are mutable and shared: \<^verbatim>\<open>rng.shuffle(x)\<close> writes into the caller's array and a
  slice \<^verbatim>\<open>x[a:b]\<close> is a view of the same memory. The store is the list of allocated row
  buffers; an array value is a window (\<open>off\<close>, \<open>len\<close>) on the first axis of the buffer
  at address \<open>base\<close>, with \<open>ncols\<close> columns. Entries are vocabulary indices.
\<close>

type_synonym heap = "row list list"

record ndarray =
  base :: nat
  off :: nat
  len :: nat
  ncols :: nat

definition buf :: "heap \<Rightarrow> nat \<Rightarrow> row list" where
  "buf h b = (if b < length h then h ! b else [])"

definition rows_of :: "heap \<Rightarrow> ndarray \<Rightarrow> row list" where
  "rows_of h a = take (len a) (drop (off a) (buf h (base a)))"

definition shape0 :: "heap \<Rightarrow> ndarray \<Rightarrow> nat" where
  "shape0 h a = length (rows_of h a)"

definition store_rows :: "heap \<Rightarrow> ndarray \<Rightarrow> row list \<Rightarrow> heap" where
  "store_rows h a new =
     (if base a < length h
      then h[base a := take (off a) (h ! base a) @ new @ drop (off a + length new) (h ! base a)]
      else h)"

text \<open>
  A basic slice on the first axis: a negative bound counts from the end, every bound is
  clipped to the length, and a stop before the start gives the empty array (the
  truncating subtraction \<open>e - s\<close>).
\<close>

definition slice_index :: "nat \<Rightarrow> int \<Rightarrow> nat" where
  "slice_index n i = (if i < 0 then nat (int n + i) else min (nat i) n)"

definition py_slice :: "heap \<Rightarrow> ndarray \<Rightarrow> int option \<Rightarrow> int option \<Rightarrow> ndarray" where
  "py_slice h a lo hi =
     (let n = shape0 h a;
          s = (case lo of None \<Rightarrow> 0 | Some i \<Rightarrow> slice_index n i);
          e = (case hi of None \<Rightarrow> n | Some i \<Rightarrow> slice_index n i)
      in a\<lparr>off := off a + s, len := e - s\<rparr>)"

text \<open>\<^verbatim>\<open>np.array(a)\<close> copies the rows of \<open>a\<close> into a newly allocated buffer.\<close>

definition np_array :: "heap \<Rightarrow> ndarray \<Rightarrow> ndarray \<times> heap" where
  "np_array h a =
     (\<lparr>base = length h, off = 0, len = shape0 h a, ncols = ncols a\<rparr>, h @ [rows_of h a])"

section \<open>The control-set generator\<close>

text \<open>
  \<^verbatim>\<open>random_ngrams(ngrams, vocab_size, all, dist, shuffle)\<close>; the generator is NumPy's
  global one, threaded through as state. \<open>randomize_term\<close> is one iteration of the loop
  over the terms: it either shuffles the column \<^verbatim>\<open>r_val[:, term]\<close> in place or
  overwrites it with fresh samples cast to \<^verbatim>\<open>uint16\<close>. Indexing a column that the
  array does not have raises \<^verbatim>\<open>IndexError\<close>; in the sampling branch the right-hand
  side is evaluated before the assignment. When an exception leaves the function the
  copy \<open>r_val\<close> is unreachable and the store is as before the call.
\<close>

definition column :: "nat \<Rightarrow> row list \<Rightarrow> nat list" where
  "column t rs = map (\<lambda>r. r ! t) rs"

definition set_column :: "nat \<Rightarrow> nat list \<Rightarrow> row list \<Rightarrow> row list" where
  "set_column t vs rs = map2 (\<lambda>r v. r[t := v]) rs vs"

definition astype_uint16 :: "nat list \<Rightarrow> nat list" where
  "astype_uint16 vs = map (\<lambda>v. nat (int v mod 65536)) vs"

definition randomize_term ::
  "nat \<Rightarrow> rat list option \<Rightarrow> bool \<Rightarrow> nat \<Rightarrow> nat \<Rightarrow> rng \<Rightarrow> row list \<Rightarrow> (error + row list) \<times> rng" where
  "randomize_term vocab_size distr shuffle nc tm g rs =
     (if shuffle then
        (if tm < nc
         then (let (vs, g1) = np_shuffle (column tm rs) g in (Inr (set_column tm vs rs), g1))
         else (Inl IndexError, g))
      else
        (case choice vocab_size (length rs) distr g of
           (Inl e, g1) \<Rightarrow> (Inl e, g1)
         | (Inr vs, g1) \<Rightarrow>
             if tm < nc then (Inr (set_column tm (astype_uint16 vs) rs), g1)
             else (Inl IndexError, g1)))"

fun randomize_terms ::
  "nat \<Rightarrow> rat list option \<Rightarrow> bool \<Rightarrow> nat \<Rightarrow> nat list \<Rightarrow> rng \<Rightarrow> row list \<Rightarrow> (error + row list) \<times> rng" where
  "randomize_terms vocab_size distr shuffle nc [] g rs = (Inr rs, g)"
| "randomize_terms vocab_size distr shuffle nc (tm # terms) g rs =
     (case randomize_term vocab_size distr shuffle nc tm g rs of
        (Inl e, g1) \<Rightarrow> (Inl e, g1)
      | (Inr rs1, g1) \<Rightarrow> randomize_terms vocab_size distr shuffle nc terms g1 rs1)"

text \<open>The terms to replace: \<^verbatim>\<open>xrange(ngrams.shape[1] if all else 1)\<close>.\<close>

definition ngram_terms :: "ndarray \<Rightarrow> bool \<Rightarrow> nat list" where
  "ngram_terms ngrams all = [0 ..< (if all then ncols ngrams else 1)]"

definition random_ngrams ::
  "rng \<Rightarrow> heap \<Rightarrow> ndarray \<Rightarrow> nat \<Rightarrow> bool \<Rightarrow> rat list option \<Rightarrow> bool \<Rightarrow> (error + ndarray) \<times> heap \<times> rng" where
  "random_ngrams g h ngrams vocab_size all distr shuffle =
     (let (r_val, h1) = np_array h ngrams
      in case randomize_terms vocab_size distr shuffle (ncols ngrams)
                (ngram_terms ngrams all) g (rows_of h1 r_val) of
           (Inl e, g1) \<Rightarrow> (Inl e, h, g1)
         | (Inr rs, g1) \<Rightarrow> (Inr r_val, store_rows h1 r_val rs, g1))"

text \<open>
  The precondition of \<^verbatim>\<open>np.random.choice\<close> (when it does not raise), and the
  value-range invariant of an n-gram matrix: every entry is below the vocabulary size.
\<close>

definition choice_ok :: "nat \<Rightarrow> rat list option \<Rightarrow> bool" where
  "choice_ok a p =
     (0 < a \<and>
      (case p of
         None \<Rightarrow> True
       | Some pv \<Rightarrow> length pv = a \<and> \<not> list_ex (\<lambda>w. w < 0) pv \<and>
                    \<not> 1 / 2 ^ 26 < \<bar>sum_list pv - 1\<bar>))"

definition in_vocab :: "nat \<Rightarrow> row list \<Rightarrow> bool" where
  "in_vocab vocab_size rs = list_all (list_all (\<lambda>v. v < vocab_size)) rs"

definition shape_ok :: "nat \<Rightarrow> row list \<Rightarrow> bool" where
  "shape_ok nc rs = list_all (\<lambda>r. length r = nc) rs"

text \<open>
  Two matrices agree outside the columns \<open>ts\<close>: the same number of rows, rows of the
  same lengths, and equal entries in every other column.
\<close>

definition same_frame :: "nat list \<Rightarrow> row list \<Rightarrow> row list \<Rightarrow> bool" where
  "same_frame ts rs rs1 \<longleftrightarrow>
     length rs1 = length rs \<and>
     (\<forall>i < length rs. length (rs1 ! i) = length (rs ! i) \<and>
        (\<forall>j. j \<notin> set ts \<longrightarrow> rs1 ! i ! j = rs ! i ! j))"

section \<open>The partitioner\<close>

text \<open>
  \<^verbatim>\<open>dataset_split(x, validation, test, rng)\<close>. The argument \<open>rng\<close> is \<^verbatim>\<open>None\<close>, an
  integer seed or a generator; \<open>RandomState\<close> is NumPy's seeding function and \<open>entropy\<close>
  the generator that \<^verbatim>\<open>RandomState()\<close> obtains from the operating system. The result
  is a triple of slices of \<open>x\<close> together with the store after the in-place shuffle.
\<close>

datatype rng_arg = RNone | RSeed int | RState rng

definition split_generator :: "(int \<Rightarrow> rng) \<Rightarrow> rng \<Rightarrow> rng_arg \<Rightarrow> rng" where
  "split_generator RandomState entropy rng =
     (case rng of RNone \<Rightarrow> entropy | RSeed s \<Rightarrow> RandomState s | RState g0 \<Rightarrow> g0)"

definition split_index :: "nat \<Rightarrow> pyfloat \<Rightarrow> error + int" where
  "split_index n f = (case float_of_nat n of Inl e \<Rightarrow> Inl e | Inr nf \<Rightarrow> py_int (fmul nf f))"

definition dataset_split ::
  "(int \<Rightarrow> rng) \<Rightarrow> rng \<Rightarrow> heap \<Rightarrow> ndarray \<Rightarrow> pyfloat \<Rightarrow> pyfloat \<Rightarrow> rng_arg
     \<Rightarrow> (error + ndarray \<times> ndarray \<times> ndarray) \<times> heap" where
  "dataset_split RandomState entropy h x validation test rng =
     (if \<not> (fgt validation (Fin 0) \<and> fgt test (Fin 0)) then (Inl AssertionError, h)
      else if \<not> flt (fadd validation test) (Fin 1) then (Inl AssertionError, h)
      else
        let g = split_generator RandomState entropy rng;
            h1 = store_rows h x (fst (np_shuffle (rows_of h x) g))
        in case split_index (shape0 h1 x) (fsub (fsub (Fin 1) validation) test) of
             Inl e \<Rightarrow> (Inl e, h1)
           | Inr i1 \<Rightarrow>
               (case split_index (shape0 h1 x) (fsub (Fin 1) test) of
                  Inl e \<Rightarrow> (Inl e, h1)
                | Inr i2 \<Rightarrow>
                    (Inr (py_slice h1 x None (Some i1),
                          py_slice h1 x (Some i1) (Some i2),
                          py_slice h1 x (Some i2) None), h1)))"



section \<open>Properties of the callbacks\<close>



lemma np_argmax_empty: "np_argmax [] = Inl ValueError"
  by (simp add: np_argmax_def)


lemma map_argmax_Inr:
  "map_argmax ss = Inr ps \<Longrightarrow>
     length ps = length ss \<and> (\<forall>k < length ss. np_argmax (ss ! k) = Inr (ps ! k))"
proof (induction ss arbitrary: ps)
  case Nil
  then show ?case by simp
next
  case (Cons s ss)
  from Cons.prems obtain p ps' where p: "np_argmax s = Inr p"
    and ps': "map_argmax ss = Inr ps'" and eq: "ps = p # ps'"
    by (auto split: sum.splits)
  from Cons.IH[OF ps'] p eq show ?case
    by (auto simp: nth_Cons split: nat.splits)
qed


lemma map_argmax_error:
  "map_argmax ss = Inl e \<Longrightarrow> e = ValueError \<and> [] \<in> set ss"
proof (induction ss)
  case Nil
  then show ?case by simp
next
  case (Cons s ss)
  show ?case
  proof (cases s)
    case Nil
    with Cons.prems show ?thesis by (simp add: np_argmax_def)
  next
    case (Cons v vs)
    then have "np_argmax s = Inr (argmax_loop vs 1 v 0)" by (simp add: np_argmax_def)
    with Cons.prems Cons.IH show ?thesis by (auto split: sum.splits)
  qed
qed

lemma map_argmax_empty_group:
  "[] \<in> set ss \<Longrightarrow> map_argmax ss = Inl ValueError"
proof -
  assume h: "[] \<in> set ss"
  show ?thesis
  proof (cases "map_argmax ss")
    case (Inl e)
    then show ?thesis using map_argmax_error by blast
  next
    case (Inr ps)
    from h obtain k where k: "k < length ss" "ss ! k = []" by (auto simp: in_set_conv_nth)
    with map_argmax_Inr[OF Inr] have "np_argmax [] = Inr (ps ! k)" by metis
    then show ?thesis by (simp add: np_argmax_def)
  qed
qed


lemma mnb_callback_fires:
  assumes "mnb mod 10 = 9" and "LOG_LIK_SIZE < length x_valid"
  shows "x_valid_ll (snd (mnb_callback x_valid x_valid_r m epoch mnb tr)) =
         x_valid_ll tr @ [np_mean (np_log (probability m (Vector (x_valid ! LOG_LIK_SIZE))))]"
  using assms by (simp add: mnb_callback_def getitem_def Let_def)

text \<open>
  C1 (the code departs from the claim). On a minibatch where the tracker fires, the
  source evaluates \<^verbatim>\<open>x_valid[_LOG_LIK_SIZE]\<close>, the single row at index 100, not the
  prefix \<^verbatim>\<open>x_valid[:_LOG_LIK_SIZE]\<close>. With a validation matrix of exactly 100 rows the
  index is out of range: the callback raises \<^verbatim>\<open>IndexError\<close> and appends nothing.
\<close>

theorem mnb_callback_indexes_one_row:
  "mnb_callback (replicate 100 [0, 0, 0, 0]) x_valid_r m epoch 9 tr = (Inl IndexError, tr)"
  by (simp add: mnb_callback_def getitem_def LOG_LIK_SIZE_def)



text \<open>
  C10. A candidate group with no candidate makes the epoch callback fail: \<^verbatim>\<open>np.argmax\<close>
  raises on the empty score list (the spec's \<open>EmptyCandidateGroup\<close>; in the source a
  \<^verbatim>\<open>ValueError\<close>), the exception leaves the callback, and no accuracy value is appended
  for that epoch: the trace is unchanged.
\<close>

theorem epoch_callback_empty_group_fails:
  assumes "[] \<in> set q_groups"
  shows "epoch_callback q_groups answers m epoch tr = (Inl ValueError, tr)"
proof -
  have "[] \<in> set (qg_log_lik m q_groups)"
    using assms by (force simp: qg_log_lik_def)
  then have "predictions m q_groups = Inl ValueError"
    unfolding predictions_def by (rule map_argmax_empty_group)
  then show ?thesis by (simp add: epoch_callback_def)
qed

theorem epoch_callback_empty_group_fails_witness:
  "epoch_callback [[[[1, 2, 3, 4]]], []] [0, 0]
     \<lparr>probability = (\<lambda>t. []), unnp = (\<lambda>t. [1])\<rparr> 0
     \<lparr>x_valid_ll = [], x_valid_ll_ratio = [], sent_challenge = []\<rparr>
   = (Inl ValueError, \<lparr>x_valid_ll = [], x_valid_ll_ratio = [], sent_challenge = []\<rparr>)"
  by (rule epoch_callback_empty_group_fails) simp

section \<open>Rounding is monotone\<close>

lemma fl_pow63: "fl (2^63) = 2^63" by code_simp
lemma fl_one: "fl 1 = 1" by code_simp

lemma pow2_pos: "0 < pow2 e"
  by (simp add: pow2_def)

lemma pow2_add: "pow2 (a + b) = pow2 a * pow2 b"
  by (simp add: pow2_def power_int_add)

lemma pow2_mono: "a \<le> b \<Longrightarrow> pow2 a \<le> pow2 b"
  by (simp add: pow2_def power_int_increasing)

lemma pow2_strict_mono: "a < b \<Longrightarrow> pow2 a < pow2 b"
  by (simp add: pow2_def power_int_strict_increasing)

lemma pow2_nat: "0 \<le> e \<Longrightarrow> pow2 e = 2 ^ nat e"
  by (simp add: pow2_def power_int_def)

lemma pow2_53: "of_int (2 ^ 53) * pow2 (e - 52) = pow2 (e + 1)"
proof -
  have "e + 1 = (e - 52) + 53" by arith
  then have "pow2 (e + 1) = pow2 ((e - 52) + 53)" by (rule arg_cong)
  also have "\<dots> = pow2 (e - 52) * pow2 53" by (rule pow2_add)
  also have "pow2 53 = of_int (2 ^ 53)" by (simp add: pow2_nat)
  finally show ?thesis by (simp add: mult.commute)
qed

lemma pow2_52: "of_int (2 ^ 52) * pow2 (e - 52) = pow2 e"
proof -
  have "e = (e - 52) + 52" by arith
  then have "pow2 e = pow2 ((e - 52) + 52)" by (rule arg_cong)
  also have "\<dots> = pow2 (e - 52) * pow2 52" by (rule pow2_add)
  also have "pow2 52 = of_int (2 ^ 52)" by (simp add: pow2_nat)
  finally show ?thesis by (simp add: mult.commute)
qed

lemma bitlen_pow2_bounds:
  assumes "0 < p"
  shows "pow2 (bitlen p - 1) \<le> of_int p" and "of_int p < pow2 (bitlen p)"
proof -
  from assms have b1: "1 \<le> bitlen p" by (auto simp: bitlen_alt_def)
  from bitlen_bounds[OF assms] have lo: "2 ^ nat (bitlen p - 1) \<le> p" and hi: "p < 2 ^ nat (bitlen p)"
    by simp_all
  have "(of_int (2 ^ nat (bitlen p - 1)) :: rat) \<le> of_int p"
    using lo by (simp only: of_int_le_iff)
  then show "pow2 (bitlen p - 1) \<le> of_int p"
    using b1 by (simp add: pow2_nat)
  have "(of_int p :: rat) < of_int (2 ^ nat (bitlen p))"
    using hi by (simp only: of_int_less_iff)
  then show "of_int p < pow2 (bitlen p)"
    using b1 by (simp add: pow2_nat)
qed

lemma ilog2_bounds:
  assumes "0 < x"
  shows "pow2 (ilog2 x) \<le> x \<and> x < pow2 (ilog2 x + 1)"
proof -
  obtain p q where pq: "quotient_of x = (p, q)" by (cases "quotient_of x")
  have q: "0 < q" using pq by (rule quotient_of_denom_pos)
  have x: "x = of_int p / of_int q" using pq by (rule quotient_of_div)
  have p: "0 < p"
  proof (rule ccontr)
    assume "\<not> 0 < p"
    then have "(of_int p :: rat) \<le> 0" by simp
    with q have "x \<le> 0" unfolding x by (simp add: divide_nonpos_pos)
    with assms show False by simp
  qed
  let ?d = "bitlen p - bitlen q"
  note bp = bitlen_pow2_bounds[OF p] and bq = bitlen_pow2_bounds[OF q]
  have qpos: "(0::rat) < of_int q" using q by simp
  have up: "x < pow2 (?d + 1)"
  proof -
    have "of_int p < pow2 (bitlen p)" by (rule bp)
    also have "\<dots> = pow2 (?d + 1) * pow2 (bitlen q - 1)"
      by (simp add: pow2_add[symmetric])
    also have "\<dots> \<le> pow2 (?d + 1) * of_int q"
      using bq(1) pow2_pos[of "?d + 1"] by (simp add: mult_left_mono)
    finally show ?thesis using qpos unfolding x by (simp add: pos_divide_less_eq)
  qed
  have lo: "pow2 (?d - 1) < x"
  proof -
    have "pow2 (?d - 1) * of_int q < pow2 (?d - 1) * pow2 (bitlen q)"
      using bq(2) pow2_pos[of "?d - 1"] by (simp add: mult_strict_left_mono)
    also have "\<dots> = pow2 (bitlen p - 1)"
      by (simp add: pow2_add[symmetric])
    also have "\<dots> \<le> of_int p" by (rule bp)
    finally show ?thesis using qpos unfolding x by (simp add: pos_less_divide_eq)
  qed
  show ?thesis
  proof (cases "pow2 ?d \<le> x")
    case True
    then have "ilog2 x = ?d" by (simp add: ilog2_def pq)
    with True up show ?thesis by simp
  next
    case False
    then have "ilog2 x = ?d - 1" by (simp add: ilog2_def pq)
    with False lo show ?thesis by simp
  qed
qed

lemma ilog2_mono:
  assumes "0 < x" and "x \<le> y"
  shows "ilog2 x \<le> ilog2 y"
proof (rule ccontr)
  assume "\<not> ilog2 x \<le> ilog2 y"
  then have "ilog2 y + 1 \<le> ilog2 x" by simp
  then have "pow2 (ilog2 y + 1) \<le> pow2 (ilog2 x)" by (rule pow2_mono)
  also have "\<dots> \<le> x" using ilog2_bounds[OF assms(1)] by simp
  also have "\<dots> \<le> y" by fact
  finally show False using ilog2_bounds[of y] assms by simp
qed

lemma rne_bounds: "\<lfloor>y\<rfloor> \<le> rne y \<and> rne y \<le> \<lfloor>y\<rfloor> + 1"
  by (simp add: rne_def Let_def)

lemma rne_of_int: "rne (of_int n) = n"
  by (simp add: rne_def)

lemma rne_mono:
  assumes "a \<le> b"
  shows "rne a \<le> rne b"
proof (cases "\<lfloor>a\<rfloor> = \<lfloor>b\<rfloor>")
  case True
  with assms have "a - of_int \<lfloor>a\<rfloor> \<le> b - of_int \<lfloor>b\<rfloor>" by simp
  with True show ?thesis by (auto simp: rne_def Let_def)
next
  case False
  with assms have "\<lfloor>a\<rfloor> < \<lfloor>b\<rfloor>"
    by (simp add: floor_mono order.strict_iff_order)
  then have "\<lfloor>a\<rfloor> + 1 \<le> \<lfloor>b\<rfloor>" by simp
  with rne_bounds[of a] rne_bounds[of b] show ?thesis by linarith
qed

lemma rne_ge: "of_int n \<le> a \<Longrightarrow> n \<le> rne a"
  using rne_mono[of "of_int n" a] by (simp add: rne_of_int)

lemma rne_le: "a \<le> of_int n \<Longrightarrow> rne a \<le> n"
  using rne_mono[of a "of_int n"] by (simp add: rne_of_int)

lemma ulp_pos: "0 < ulp x"
  by (simp add: ulp_def pow2_pos)

lemma fl_nonneg: "0 \<le> x \<Longrightarrow> 0 \<le> fl x"
proof -
  assume x: "0 \<le> x"
  have "0 \<le> x / ulp x" using x ulp_pos[of x] by simp
  then have "0 \<le> rne (x / ulp x)" using rne_ge[of 0 "x / ulp x"] by simp
  then show ?thesis using ulp_pos[of x] by (simp add: fl_def)
qed

lemma fl_mono_pos:
  assumes x: "0 < x" and xy: "x \<le> y"
  shows "fl x \<le> fl y"
proof -
  have y: "0 < y" using x xy by simp
  let ?ex = "max (ilog2 x) (- 1022)" and ?ey = "max (ilog2 y) (- 1022)"
  have ux: "ulp x = pow2 (?ex - 52)" and uy: "ulp y = pow2 (?ey - 52)"
    using x y by (simp_all add: ulp_def)
  have flx: "fl x = of_int (rne (x / ulp x)) * ulp x"
    and fly: "fl y = of_int (rne (y / ulp y)) * ulp y"
    using x y by (simp_all add: fl_def)
  have le: "?ex \<le> ?ey" using ilog2_mono[OF x xy] by simp
  show ?thesis
  proof (cases "?ex = ?ey")
    case True
    then have u: "ulp x = ulp y" by (simp add: ux uy)
    have "x / ulp y \<le> y / ulp y" using xy ulp_pos[of y] by (simp add: divide_right_mono)
    then have "rne (x / ulp y) \<le> rne (y / ulp y)" by (rule rne_mono)
    then have "(of_int (rne (x / ulp y)) :: rat) \<le> of_int (rne (y / ulp y))" by simp
    then show ?thesis unfolding flx fly u using ulp_pos[of y] by (simp add: mult_right_mono)
  next
    case False
    from le False have lt: "?ex < ?ey" by (rule le_neq_trans)
    then have ey: "?ey = ilog2 y" by (simp add: max_def split: if_splits)
    have "x < pow2 (ilog2 x + 1)" using ilog2_bounds[OF x] by simp
    also have "\<dots> \<le> pow2 (?ex + 1)" by (rule pow2_mono) simp
    also have "\<dots> = of_int (2 ^ 53) * ulp x"
      unfolding ux by (rule pow2_53[symmetric])
    finally have "x / ulp x \<le> of_int (2 ^ 53)"
      using ulp_pos[of x] by (simp add: pos_divide_le_eq)
    then have "rne (x / ulp x) \<le> 2 ^ 53" by (rule rne_le)
    then have "(of_int (rne (x / ulp x)) :: rat) \<le> of_int (2 ^ 53)" by (simp only: of_int_le_iff)
    then have "fl x \<le> of_int (2 ^ 53) * ulp x"
      unfolding flx using ulp_pos[of x] by (simp add: mult_right_mono)
    also have "\<dots> = pow2 (?ex + 1)"
      unfolding ux by (rule pow2_53)
    also have "\<dots> \<le> pow2 ?ey"
    proof (rule pow2_mono)
      from lt show "?ex + 1 \<le> ?ey" by (rule zless_imp_add1_zle)
    qed
    also have "\<dots> = of_int (2 ^ 52) * ulp y"
      unfolding uy by (rule pow2_52[symmetric])
    also have "\<dots> \<le> fl y"
    proof -
      have "pow2 ?ey \<le> y" using ilog2_bounds[OF y] ey by simp
      then have "of_int (2 ^ 52) * ulp y \<le> y"
        unfolding uy by (simp only: pow2_52)
      then have "of_int (2 ^ 52) \<le> y / ulp y"
        using ulp_pos[of y] by (simp add: pos_le_divide_eq)
      then have "2 ^ 52 \<le> rne (y / ulp y)" by (rule rne_ge)
      then have "(of_int (2 ^ 52) :: rat) \<le> of_int (rne (y / ulp y))" by (simp only: of_int_le_iff)
      then show ?thesis unfolding fly using ulp_pos[of y] by (simp add: mult_right_mono)
    qed
    finally show ?thesis .
  qed
qed

lemma fl_mono:
  assumes "0 \<le> x" and "x \<le> y"
  shows "fl x \<le> fl y"
proof (cases "x = 0")
  case True
  then show ?thesis using fl_nonneg[of y] assms by (simp add: fl_def)
next
  case False
  with assms show ?thesis by (intro fl_mono_pos) simp_all
qed

section \<open>The split indices of the run in main\<close>

lemma to_float_Fin: "fl x = y \<Longrightarrow> \<bar>y\<bar> < 2 ^ 1024 \<Longrightarrow> to_float x = Fin y"
  by (auto simp: to_float_def Let_def)

lemma fl_005: "fl (1 / 20) = 3602879701896397 / 72057594037927936"
  by code_simp

lemma literal_005: "to_float (1 / 20) = Fin (3602879701896397 / 72057594037927936)"
  by (rule to_float_Fin[OF fl_005]) simp

lemma fl_sum_005:
  "fl (3602879701896397 / 36028797018963968) = 3602879701896397 / 36028797018963968"
  by code_simp

lemma fl_095:
  "fl (1 - 3602879701896397 / 72057594037927936) = 4278419646001971 / 4503599627370496"
  by code_simp

lemma fl_090:
  "fl (4278419646001971 / 4503599627370496 - 3602879701896397 / 72057594037927936) =
     2026619832316723 / 2251799813685248"
  by code_simp

lemma fl_1000: "fl 1000 = 1000"
  by code_simp

lemma fl_899: "fl (1000 * (2026619832316723 / 2251799813685248)) = 7916483719987199 / 8796093022208"
  by code_simp

lemma fl_950: "fl (1000 * (4278419646001971 / 4503599627370496)) = 950"
  by code_simp

lemma fl_half: "fl (1 / 2) = 1 / 2"
  by code_simp

lemma fl_quarter: "fl (1 / 4) = 1 / 4"
  by code_simp

lemma fl_below_half:
  "fl (9007199254740991 / 18014398509481984) = 9007199254740991 / 18014398509481984"
  by code_simp

lemma fl_below_one: "fl (18014398509481983 / 18014398509481984) = 1"
  by code_simp

lemma sub_095:
  "fsub (Fin 1) (Fin (3602879701896397 / 72057594037927936)) =
     Fin (4278419646001971 / 4503599627370496)"
  unfolding fsub_def fneg.simps fadd.simps
  by (rule to_float_Fin) (use fl_095 in simp_all)

lemma sub_090:
  "fsub (Fin (4278419646001971 / 4503599627370496)) (Fin (3602879701896397 / 72057594037927936)) =
     Fin (2026619832316723 / 2251799813685248)"
  unfolding fsub_def fneg.simps fadd.simps
  by (rule to_float_Fin) (use fl_090 in simp_all)

lemma float_of_nat_1000: "float_of_nat 1000 = Inr (Fin 1000)"
proof -
  have "to_float (of_nat 1000) = Fin 1000"
    by (rule to_float_Fin) (use fl_1000 in simp_all)
  then show ?thesis by (simp add: float_of_nat_def)
qed

lemma floor_899: "\<lfloor>7916483719987199 / 8796093022208 :: rat\<rfloor> = 899"
  by code_simp

lemma split_index_899: "split_index 1000 (Fin (2026619832316723 / 2251799813685248)) = Inr 899"
proof -
  have "to_float (1000 * (2026619832316723 / 2251799813685248)) =
        Fin (7916483719987199 / 8796093022208)"
    by (rule to_float_Fin[OF fl_899]) simp
  then show ?thesis by (simp add: split_index_def float_of_nat_1000 floor_899)
qed

lemma split_index_950: "split_index 1000 (Fin (4278419646001971 / 4503599627370496)) = Inr 950"
proof -
  have "to_float (1000 * (4278419646001971 / 4503599627370496)) = Fin 950"
    by (rule to_float_Fin[OF fl_950]) simp
  then show ?thesis by (simp add: split_index_def float_of_nat_1000)
qed

section \<open>Shuffling, the store and slices\<close>

lemma shuffle_loop_length: "length (fst (shuffle_loop k g xs)) = length xs"
  by (induction k arbitrary: g xs) (simp_all add: rk_interval_def)

lemma shuffle_loop_mset: "k < length xs \<Longrightarrow> mset (fst (shuffle_loop k g xs)) = mset xs"
proof (induction k arbitrary: g xs)
  case 0
  then show ?case by simp
next
  case (Suc k)
  let ?j = "g 0 mod Suc (Suc k)"
  have j: "?j < length xs" using Suc.prems by (simp add: less_le_trans[OF mod_less_divisor])
  let ?ys = "xs[Suc k := xs ! ?j, ?j := xs ! Suc k]"
  have "mset ?ys = mset xs" using Suc.prems j by (simp add: mset_swap)
  moreover have "k < length ?ys" using Suc.prems by simp
  ultimately show ?case using Suc.IH[of ?ys "\<lambda>i. g (Suc i)"]
    by (simp add: rk_interval_def)
qed

lemma np_shuffle_length: "length (fst (np_shuffle xs g)) = length xs"
  by (simp add: np_shuffle_def shuffle_loop_length)

lemma np_shuffle_mset: "mset (fst (np_shuffle xs g)) = mset xs"
proof (cases xs)
  case Nil
  then show ?thesis by (simp add: np_shuffle_def)
next
  case (Cons a as)
  then show ?thesis unfolding np_shuffle_def by (intro shuffle_loop_mset) simp
qed

lemma rows_of_store:
  assumes "length new = shape0 h a"
  shows "rows_of (store_rows h a new) a = new"
proof (cases "base a < length h")
  case False
  with assms show ?thesis by (simp add: store_rows_def rows_of_def buf_def shape0_def)
next
  case True
  let ?b = "h ! base a"
  have n: "length new = min (len a) (length ?b - off a)"
    using assms True by (simp add: shape0_def rows_of_def buf_def)
  have r: "rows_of (store_rows h a new) a =
           take (len a) (drop (off a) (take (off a) ?b @ new @ drop (off a + length new) ?b))"
    using True by (simp add: store_rows_def rows_of_def buf_def)
  show ?thesis
  proof (cases "off a \<le> length ?b")
    case le: True
    then have "drop (off a) (take (off a) ?b @ new @ drop (off a + length new) ?b)
               = new @ drop (off a + length new) ?b"
      by simp
    moreover have "take (len a) (new @ drop (off a + length new) ?b) = new"
      using n by (auto simp: min_def split: if_splits)
    ultimately show ?thesis using r by simp
  next
    case False
    then have "new = []" using n by simp
    with False r show ?thesis by simp
  qed
qed

lemma shape0_store:
  "length new = shape0 h a \<Longrightarrow> shape0 (store_rows h a new) a = shape0 h a"
  by (simp add: shape0_def[of "store_rows h a new"] rows_of_store)

lemma slice_index_le: "slice_index n i \<le> n"
proof (cases "i < 0")
  case True
  then have "nat (int n + i) \<le> n" by linarith
  with True show ?thesis by (simp add: slice_index_def)
next
  case False
  then show ?thesis by (simp add: slice_index_def)
qed

lemma rows_of_sub:
  assumes "e \<le> shape0 h a"
  shows "rows_of h (a\<lparr>off := off a + s, len := e - s\<rparr>) = take (e - s) (drop s (rows_of h a))"
proof -
  let ?d = "drop (off a) (buf h (base a))"
  have e: "e \<le> len a" using assms by (simp add: shape0_def rows_of_def)
  have "take (e - s) (drop s (take (len a) ?d)) = take (e - s) (take (len a - s) (drop s ?d))"
    by (simp add: drop_take)
  also have "\<dots> = take (e - s) (drop s ?d)" using e by (simp add: min_def)
  finally show ?thesis by (simp add: rows_of_def add.commute)
qed

lemma rows_of_py_slice:
  "rows_of h (py_slice h a lo hi) =
     (let n = shape0 h a;
          s = (case lo of None \<Rightarrow> 0 | Some i \<Rightarrow> slice_index n i);
          e = (case hi of None \<Rightarrow> n | Some i \<Rightarrow> slice_index n i)
      in take (e - s) (drop s (rows_of h a)))"
proof -
  have "(case hi of None \<Rightarrow> shape0 h a | Some i \<Rightarrow> slice_index (shape0 h a) i) \<le> shape0 h a"
    by (simp add: slice_index_le split: option.split)
  from rows_of_sub[OF this] show ?thesis by (simp add: py_slice_def Let_def)
qed

lemma split_partition:
  assumes "0 \<le> i1" and "i1 \<le> i2"
  shows "rows_of h (py_slice h x None (Some i1)) @
         rows_of h (py_slice h x (Some i1) (Some i2)) @
         rows_of h (py_slice h x (Some i2) None) = rows_of h x"
proof -
  let ?R = "rows_of h x"
  let ?n = "length ?R"
  let ?k1 = "min (nat i1) ?n" and ?k2 = "min (nat i2) ?n"
  have k: "?k1 \<le> ?k2" using assms by simp
  have s1: "slice_index ?n i1 = ?k1" and s2: "slice_index ?n i2 = ?k2"
    using assms by (simp_all add: slice_index_def)
  have a: "rows_of h (py_slice h x None (Some i1)) = take ?k1 ?R"
    by (simp add: rows_of_py_slice shape0_def s1 Let_def)
  have b: "rows_of h (py_slice h x (Some i1) (Some i2)) = take (?k2 - ?k1) (drop ?k1 ?R)"
    by (simp only: rows_of_py_slice shape0_def s1 s2 Let_def option.case)
  have c: "rows_of h (py_slice h x (Some i2) None) = drop ?k2 ?R"
    by (simp add: rows_of_py_slice shape0_def s2 Let_def)
  have "take ?k1 ?R @ take (?k2 - ?k1) (drop ?k1 ?R) = take ?k2 ?R"
    using k by (metis le_add_diff_inverse take_add)
  then have "take ?k1 ?R @ take (?k2 - ?k1) (drop ?k1 ?R) @ drop ?k2 ?R = ?R"
    by (metis append.assoc append_take_drop_id)
  with a b c show ?thesis by simp
qed

section \<open>The partitioner: lemmas\<close>

lemma dataset_split_assert:
  assumes "\<not> (fgt validation (Fin 0) \<and> fgt test (Fin 0) \<and> flt (fadd validation test) (Fin 1))"
  shows "dataset_split RS en h x validation test rng = (Inl AssertionError, h)"
  using assms by (auto simp: dataset_split_def)


lemma dataset_split_not_assert:
  assumes "fgt validation (Fin 0)" and "fgt test (Fin 0)" and "flt (fadd validation test) (Fin 1)"
  shows "fst (dataset_split RS en h x validation test rng) \<noteq> Inl AssertionError"
proof -
  have a: "py_int f \<noteq> Inl AssertionError" for f by (cases f) simp_all
  have "split_index n f \<noteq> Inl AssertionError" for n f
    using a by (auto simp: split_index_def float_of_nat_def split: sum.splits pyfloat.splits)
  then show ?thesis using assms
    by (auto simp: dataset_split_def Let_def split: sum.splits)
qed

lemma dataset_split_Inr:
  assumes "fgt validation (Fin 0)" and "fgt test (Fin 0)" and "flt (fadd validation test) (Fin 1)"
    and "split_index (shape0 h x) (fsub (fsub (Fin 1) validation) test) = Inr i1"
    and "split_index (shape0 h x) (fsub (Fin 1) test) = Inr i2"
    and "h1 = store_rows h x (fst (np_shuffle (rows_of h x) (split_generator RS en rng)))"
  shows "dataset_split RS en h x validation test rng =
           (Inr (py_slice h1 x None (Some i1), py_slice h1 x (Some i1) (Some i2),
                 py_slice h1 x (Some i2) None), h1)"
proof -
  have "shape0 h1 x = shape0 h x"
    unfolding assms(6) by (rule shape0_store) (simp add: np_shuffle_length shape0_def)
  then show ?thesis using assms
    by (simp add: dataset_split_def Let_def)
qed

lemma rows_after_shuffle:
  "rows_of (store_rows h x (fst (np_shuffle (rows_of h x) g))) x = fst (np_shuffle (rows_of h x) g)"
  by (rule rows_of_store) (simp add: np_shuffle_length shape0_def)

lemma to_float_range:
  assumes "0 \<le> x" and "x \<le> 2 ^ 63"
  shows "to_float x = Fin (fl x)" and "0 \<le> fl x" and "fl x \<le> 2 ^ 63"
proof -
  show a: "0 \<le> fl x" using assms(1) by (rule fl_nonneg)
  have "fl x \<le> fl (2 ^ 63)" using assms by (rule fl_mono)
  then show b: "fl x \<le> 2 ^ 63" by (simp only: fl_pow63)
  have "(2::rat) ^ 63 < 2 ^ 1024" by simp
  with b have "fl x < 2 ^ 1024" by (rule le_less_trans)
  with a show "to_float x = Fin (fl x)" by (simp add: to_float_def Let_def)
qed

lemma fl_le_one: "0 \<le> x \<Longrightarrow> x \<le> 1 \<Longrightarrow> fl x \<le> 1"
  using fl_mono[of x 1] by (simp add: fl_one)

lemma to_float_unit:
  assumes "0 \<le> x" and "x \<le> 1"
  shows "to_float x = Fin (fl x)" and "0 \<le> fl x" and "fl x \<le> 1"
proof -
  have "x \<le> 2 ^ 63" using assms(2) by (rule order_trans) simp
  with assms(1) show "to_float x = Fin (fl x)" and "0 \<le> fl x" by (rule to_float_range)+
  show "fl x \<le> 1" using assms by (rule fl_le_one)
qed

lemma fractions_valid:
  assumes "fgt validation (Fin 0)" and "fgt test (Fin 0)" and "flt (fadd validation test) (Fin 1)"
  obtains a b where "validation = Fin a" and "test = Fin b" and "0 < a" and "0 < b"
    and "a + b < 1"
proof -
  from assms obtain a b where a: "validation = Fin a" "0 < a" and b: "test = Fin b" "0 < b"
    by (cases validation; cases test) (simp_all add: fgt_def)
  have "a + b < 1"
  proof (rule ccontr)
    assume "\<not> a + b < 1"
    then have "1 \<le> a + b" by simp
    with fl_mono[of 1 "a + b"] have one: "1 \<le> fl (a + b)" by (simp add: fl_one)
    then have "\<not> fl (a + b) \<le> - (2 ^ 1024)" by simp
    with one have "\<not> flt (to_float (a + b)) (Fin 1)"
      by (simp add: to_float_def Let_def)
    with assms(3) a b show False by simp
  qed
  with a b show ?thesis using that by blast
qed

lemma split_index_unit:
  assumes n: "n < 2 ^ 63" and c: "0 \<le> c" "c \<le> 1"
  shows "split_index n (Fin c) = Inr \<lfloor>fl (fl (of_nat n) * c)\<rfloor>"
    and "0 \<le> fl (fl (of_nat n) * c)"
proof -
  have n0: "(0::rat) \<le> of_nat n" by simp
  have "(of_nat n :: rat) < of_nat (2 ^ 63)" using n by (simp only: of_nat_less_iff)
  then have n1: "(of_nat n :: rat) \<le> 2 ^ 63" by simp
  note nf = to_float_range[OF n0 n1]
  have p0: "0 \<le> fl (of_nat n) * c" using nf(2) c(1) by simp
  have "fl (of_nat n) * c \<le> fl (of_nat n) * 1" using nf(2) c(2) by (rule mult_left_mono[rotated])
  with nf(3) have p1: "fl (of_nat n) * c \<le> 2 ^ 63" by simp
  note pf = to_float_range[OF p0 p1]
  show "0 \<le> fl (fl (of_nat n) * c)" by (rule pf(2))
  show "split_index n (Fin c) = Inr \<lfloor>fl (fl (of_nat n) * c)\<rfloor>"
    using nf(1) pf(1) pf(2) by (simp add: split_index_def float_of_nat_def)
qed

lemma split_indices:
  assumes pre: "fgt validation (Fin 0)" "fgt test (Fin 0)" "flt (fadd validation test) (Fin 1)"
    and dbl: "is_double test" and n: "n < 2 ^ 63"
  obtains i1 i2 where "split_index n (fsub (fsub (Fin 1) validation) test) = Inr i1"
    and "split_index n (fsub (Fin 1) test) = Inr i2" and "0 \<le> i1" and "i1 \<le> i2"
proof -
  from pre obtain a b where v: "validation = Fin a" and t: "test = Fin b"
    and a: "0 < a" and b: "0 < b" and ab: "a + b < 1"
    by (rule fractions_valid)
  have flb: "fl b = b"
  proof -
    from dbl t have "to_float b = Fin b" by (simp add: is_double_def)
    moreover have "to_float b = Fin (fl b)" using b ab a by (intro to_float_unit) simp_all
    ultimately show ?thesis by simp
  qed
  have c1: "fsub (Fin 1) (Fin a) = Fin (fl (1 - a))" and c1r: "fl (1 - a) \<le> 1"
    using to_float_unit[of "1 - a"] a ab b by (simp_all add: fsub_def)
  have bc: "b \<le> fl (1 - a)"
  proof -
    have "fl b \<le> fl (1 - a)" using b ab by (intro fl_mono) simp_all
    then show ?thesis by (simp only: flb)
  qed
  let ?c = "fl (1 - a)"
  have d0: "0 \<le> ?c - b" using bc by simp
  have d1: "?c - b \<le> 1" using c1r b by simp
  have c2: "fsub (Fin ?c) (Fin b) = Fin (fl (?c - b))"
    using to_float_unit(1)[OF d0 d1] by (simp add: fsub_def)
  have e0: "0 \<le> 1 - b" and e1: "1 - b \<le> 1" using b ab a by simp_all
  have c3: "fsub (Fin 1) (Fin b) = Fin (fl (1 - b))"
    using to_float_unit(1)[OF e0 e1] by (simp add: fsub_def)
  let ?p = "fl (?c - b)" and ?q = "fl (1 - b)"
  note p = to_float_unit(2,3)[OF d0 d1] and q = to_float_unit(2,3)[OF e0 e1]
  have pq: "?p \<le> ?q" using d0 c1r by (intro fl_mono) simp_all
  note s1 = split_index_unit[OF n p] and s2 = split_index_unit[OF n q]
  have nf: "0 \<le> fl (of_nat n)" by (rule fl_nonneg) simp
  have "fl (of_nat n) * ?p \<le> fl (of_nat n) * ?q" using pq nf by (rule mult_left_mono)
  moreover have "0 \<le> fl (of_nat n) * ?p" using nf p(1) by simp
  ultimately have "fl (fl (of_nat n) * ?p) \<le> fl (fl (of_nat n) * ?q)" by (intro fl_mono)
  then have le: "\<lfloor>fl (fl (of_nat n) * ?p)\<rfloor> \<le> \<lfloor>fl (fl (of_nat n) * ?q)\<rfloor>" by (rule floor_mono)
  have ge: "0 \<le> \<lfloor>fl (fl (of_nat n) * ?p)\<rfloor>" using s1(2) by simp
  show ?thesis
    by (rule that[OF _ _ ge le]) (simp_all add: v t c1 c2 c3 s1(1) s2(1))
qed

section \<open>The control-set generator: lemmas\<close>

lemma draw_n_length: "length (fst (draw_n d n g)) = n"
  by (induction n arbitrary: g) (simp_all add: split_beta)

lemma draw_n_set:
  assumes "\<And>g. P (fst (d g))"
  shows "\<forall>v \<in> set (fst (draw_n d n g)). P v"
  by (induction n arbitrary: g) (simp_all add: split_beta assms)



lemma cumsum_from_length: "length (cumsum_from acc ps) = length ps"
  by (induction ps arbitrary: acc) simp_all

lemma cumsum_from_last: "ps \<noteq> [] \<Longrightarrow> last (cumsum_from acc ps) = acc + sum_list ps"
proof (induction ps arbitrary: acc)
  case Nil
  then show ?case by simp
next
  case (Cons p ps)
  show ?case
  proof (cases "ps = []")
    case True
    then show ?thesis by simp
  next
    case False
    then have "cumsum_from (acc + p) ps \<noteq> []"
      using cumsum_from_length[of "acc + p" ps] by auto
    with Cons.IH[OF False, of "acc + p"] show ?thesis by (simp add: add.assoc)
  qed
qed

lemma takeWhile_short:
  assumes "xs \<noteq> []" and "\<not> P (last xs)"
  shows "length (takeWhile P xs) < length xs"
proof (rule ccontr)
  assume "\<not> length (takeWhile P xs) < length xs"
  then have "length (takeWhile P xs) = length xs"
    using length_takeWhile_le[of P xs] by simp
  moreover have "length (takeWhile P xs) + length (dropWhile P xs) = length xs"
    by (metis length_append takeWhile_dropWhile_id)
  ultimately have "dropWhile P xs = []" by simp
  then have "\<forall>x \<in> set xs. P x" by (simp add: dropWhile_eq_Nil_conv)
  with assms show False by simp
qed

lemma random_sample_unit: "fst (random_sample g) < 1"
proof -
  have "int (g 0) mod 2 ^ 53 < 2 ^ 53" by simp
  then have "(of_int (int (g 0) mod 2 ^ 53) :: rat) < of_int (2 ^ 53)"
    by (simp only: of_int_less_iff)
  then show ?thesis by (simp add: random_sample_def)
qed

lemma rk_interval_le: "fst (rk_interval mx g) \<le> mx"
  by (simp add: rk_interval_def less_Suc_eq_le[symmetric])

lemma choice_Inr:
  assumes "fst (choice a n p g) = Inr vs"
  shows "length vs = n \<and> (\<forall>v \<in> set vs. v < a)"
proof (cases p)
  case None
  from assms None have a: "0 < a" by (auto simp: choice_def split: if_splits)
  from assms None a have vs: "vs = fst (draw_n (rk_interval (a - 1)) n g)"
    by (simp add: choice_def split_beta)
  have "\<forall>v \<in> set (fst (draw_n (rk_interval (a - 1)) n g)). v \<le> a - 1"
    by (rule draw_n_set) (rule rk_interval_le)
  with a show ?thesis unfolding vs by (auto simp: draw_n_length)
next
  case (Some pv)
  let ?cs = "cumsum_from 0 pv"
  let ?cdf = "map (\<lambda>c. c / last ?cs) ?cs"
  let ?us = "fst (draw_n random_sample n g)"
  from assms Some have a: "0 < a" and len: "length pv = a"
    and tol: "\<not> 1 / 2 ^ 26 < \<bar>sum_list pv - 1\<bar>"
    by (auto simp: choice_def split: if_splits)
  from assms Some a len tol have vs: "vs = map (searchsorted_right ?cdf) ?us"
    by (auto simp: choice_def split_beta Let_def split: if_splits)
  have ne: "pv \<noteq> []" using a len by auto
  then have cs_ne: "?cs \<noteq> []" using cumsum_from_length[of 0 pv] by auto
  have "last ?cs = sum_list pv" using cumsum_from_last[OF ne, of 0] by simp
  moreover have "sum_list pv \<noteq> 0" using tol by auto
  ultimately have "last ?cs / last ?cs = 1" by simp
  then have last1: "last ?cdf = 1" using cs_ne by (simp add: last_map)
  have cdf_ne: "?cdf \<noteq> []" using cs_ne by simp
  have cdf_len: "length ?cdf = a" using len by (simp add: cumsum_from_length)
  have "searchsorted_right ?cdf u < a" if "u < 1" for u
  proof -
    have "\<not> last ?cdf \<le> u" using that last1 by simp
    with cdf_ne have "length (takeWhile (\<lambda>c. c \<le> u) ?cdf) < length ?cdf"
      by (rule takeWhile_short)
    then show ?thesis by (simp only: searchsorted_right_def cdf_len)
  qed
  moreover have "\<forall>u \<in> set ?us. u < 1"
    by (rule draw_n_set) (rule random_sample_unit)
  ultimately show ?thesis unfolding vs by (auto simp: draw_n_length)
qed

lemma choice_total:
  assumes "choice_ok a p"
  shows "\<exists>vs. fst (choice a n p g) = Inr vs"
  using assms by (auto simp: choice_ok_def choice_def split_beta Let_def split: option.splits)

lemma set_column_length:
  "length vs = length rs \<Longrightarrow> length (set_column t vs rs) = length rs"
  by (simp add: set_column_def)

lemma set_column_nth:
  "length vs = length rs \<Longrightarrow> i < length rs \<Longrightarrow> set_column t vs rs ! i = (rs ! i)[t := vs ! i]"
  by (simp add: set_column_def)

lemma in_vocab_nth:
  "in_vocab V rs \<longleftrightarrow> (\<forall>i < length rs. \<forall>v \<in> set (rs ! i). v < V)"
  by (simp add: in_vocab_def list_all_length) (metis in_set_conv_nth)

lemma shape_ok_nth: "shape_ok nc rs \<longleftrightarrow> (\<forall>i < length rs. length (rs ! i) = nc)"
  by (simp add: shape_ok_def list_all_length)

lemma set_column_in_vocab:
  assumes "length vs = length rs" and "in_vocab V rs" and "\<forall>v \<in> set vs. v < V"
  shows "in_vocab V (set_column t vs rs)"
proof -
  have "w < V" if i: "i < length rs" and w: "w \<in> set ((rs ! i)[t := vs ! i])" for i w
  proof -
    from w have "w = vs ! i \<or> w \<in> set (rs ! i)"
      using set_update_subset_insert[of "rs ! i" t "vs ! i"] by auto
    moreover have "vs ! i < V" using assms(1,3) i by simp
    moreover have "\<forall>v \<in> set (rs ! i). v < V" using assms(2) i by (simp add: in_vocab_nth)
    ultimately show ?thesis by auto
  qed
  then show ?thesis
    using assms(1) by (simp add: in_vocab_nth set_column_length set_column_nth)
qed

lemma same_frame_refl: "same_frame ts rs rs"
  by (simp add: same_frame_def)

lemma same_frame_trans:
  "same_frame [t] rs rs1 \<Longrightarrow> same_frame ts rs1 rs2 \<Longrightarrow> same_frame (t # ts) rs rs2"
  by (auto simp: same_frame_def)

lemma set_column_frame:
  assumes "length vs = length rs"
  shows "same_frame [t] rs (set_column t vs rs)"
  using assms by (simp add: same_frame_def set_column_length set_column_nth)

lemma randomize_term_Inr:
  assumes "fst (randomize_term V distr shuffle nc tm g rs) = Inr rs1"
  shows "same_frame [tm] rs rs1"
    and "in_vocab V rs \<Longrightarrow> shape_ok nc rs \<Longrightarrow> in_vocab V rs1"
proof -
  show "same_frame [tm] rs rs1"
  proof (cases shuffle)
    case True
    with assms have "rs1 = set_column tm (fst (np_shuffle (column tm rs) g)) rs"
      by (auto simp: randomize_term_def split_beta split: if_splits)
    then show ?thesis
      by (simp add: set_column_frame np_shuffle_length column_def)
  next
    case False
    with assms obtain vs where c: "fst (choice V (length rs) distr g) = Inr vs"
      and r: "rs1 = set_column tm (astype_uint16 vs) rs"
      by (auto simp: randomize_term_def split: prod.splits sum.splits if_splits)
    from choice_Inr[OF c] r show ?thesis
      by (simp add: set_column_frame astype_uint16_def)
  qed
  assume iv: "in_vocab V rs" and sh: "shape_ok nc rs"
  show "in_vocab V rs1"
  proof (cases shuffle)
    case True
    with assms have tm: "tm < nc"
      and r: "rs1 = set_column tm (fst (np_shuffle (column tm rs) g)) rs"
      by (auto simp: randomize_term_def split_beta split: if_splits)
    let ?vs = "fst (np_shuffle (column tm rs) g)"
    have "set ?vs = set (column tm rs)"
      using np_shuffle_mset[of "column tm rs" g] by (rule mset_eq_setD)
    moreover have "\<forall>v \<in> set (column tm rs). v < V"
    proof
      fix v assume "v \<in> set (column tm rs)"
      then obtain i where i: "i < length rs" and v: "v = rs ! i ! tm"
        by (auto simp: column_def in_set_conv_nth)
      from sh i tm have "tm < length (rs ! i)" by (simp add: shape_ok_nth)
      then have "rs ! i ! tm \<in> set (rs ! i)" by simp
      with iv i v show "v < V" by (simp add: in_vocab_nth)
    qed
    ultimately have "\<forall>v \<in> set ?vs. v < V" by simp
    with iv show ?thesis unfolding r
      by (intro set_column_in_vocab) (simp_all add: np_shuffle_length column_def)
  next
    case False
    with assms obtain vs where c: "fst (choice V (length rs) distr g) = Inr vs"
      and r: "rs1 = set_column tm (astype_uint16 vs) rs"
      by (auto simp: randomize_term_def split: prod.splits sum.splits if_splits)
    from choice_Inr[OF c] have l: "length vs = length rs" and b: "\<forall>v \<in> set vs. v < V"
      by simp_all
    have "nat (int v mod 65536) < V" if "v \<in> set vs" for v
    proof -
      have "int v mod 65536 \<le> int v" by (rule zmod_le_nonneg_dividend) simp
      then have "nat (int v mod 65536) \<le> v" by simp
      with b that show ?thesis by (auto intro: le_less_trans)
    qed
    then have "\<forall>w \<in> set (astype_uint16 vs). w < V" by (auto simp: astype_uint16_def)
    with iv l show ?thesis unfolding r
      by (intro set_column_in_vocab) (simp_all add: astype_uint16_def)
  qed
qed

lemma randomize_term_total:
  assumes "tm < nc" and "shuffle \<or> choice_ok V distr"
  shows "\<exists>rs1. fst (randomize_term V distr shuffle nc tm g rs) = Inr rs1"
proof (cases shuffle)
  case True
  with assms(1) show ?thesis by (simp add: randomize_term_def split_beta)
next
  case False
  with assms(2) obtain vs where "fst (choice V (length rs) distr g) = Inr vs"
    using choice_total by blast
  with False assms(1) show ?thesis
    by (auto simp: randomize_term_def split: prod.splits sum.splits)
qed

lemma same_frame_shape:
  "same_frame ts rs rs1 \<Longrightarrow> shape_ok nc rs \<Longrightarrow> shape_ok nc rs1"
  by (simp add: same_frame_def shape_ok_nth)

lemma randomize_terms_Inr:
  assumes "fst (randomize_terms V distr shuffle nc ts g rs) = Inr rs1"
  shows "same_frame ts rs rs1 \<and> (in_vocab V rs \<and> shape_ok nc rs \<longrightarrow> in_vocab V rs1)"
  using assms
proof (induction ts arbitrary: g rs)
  case Nil
  then show ?case by (simp add: same_frame_refl)
next
  case (Cons t ts)
  from Cons.prems obtain rs0 g0
    where step: "randomize_term V distr shuffle nc t g rs = (Inr rs0, g0)"
      and rest: "fst (randomize_terms V distr shuffle nc ts g0 rs0) = Inr rs1"
    by (auto split: prod.splits sum.splits)
  from step have s: "fst (randomize_term V distr shuffle nc t g rs) = Inr rs0" by simp
  note one = randomize_term_Inr[OF s]
  note ih = Cons.IH[OF rest]
  have "same_frame (t # ts) rs rs1" using one(1) ih by (blast intro: same_frame_trans)
  moreover have "in_vocab V rs1" if "in_vocab V rs" and "shape_ok nc rs"
    using one(2)[OF that] same_frame_shape[OF one(1) that(2)] ih by blast
  ultimately show ?case by blast
qed

lemma randomize_terms_total:
  assumes "\<forall>t \<in> set ts. t < nc" and "shuffle \<or> choice_ok V distr"
  shows "\<exists>rs1. fst (randomize_terms V distr shuffle nc ts g rs) = Inr rs1"
  using assms(1)
proof (induction ts arbitrary: g rs)
  case Nil
  then show ?case by simp
next
  case (Cons t ts)
  then have "t < nc" by simp
  from randomize_term_total[OF this assms(2)] obtain rs0
    where "fst (randomize_term V distr shuffle nc t g rs) = Inr rs0" by blast
  then obtain g0 where "randomize_term V distr shuffle nc t g rs = (Inr rs0, g0)"
    by (cases "randomize_term V distr shuffle nc t g rs") simp
  moreover from Cons obtain rs1
    where "fst (randomize_terms V distr shuffle nc ts g0 rs0) = Inr rs1" by fastforce
  ultimately show ?case by simp
qed

lemma random_ngrams_cases:
  obtains (fail) e g1 where
      "randomize_terms V distr shuffle (ncols ngrams) (ngram_terms ngrams all) g (rows_of h ngrams)
         = (Inl e, g1)"
      "random_ngrams g h ngrams V all distr shuffle = (Inl e, h, g1)"
  | (ok) rs g1 where
      "randomize_terms V distr shuffle (ncols ngrams) (ngram_terms ngrams all) g (rows_of h ngrams)
         = (Inr rs, g1)"
      "random_ngrams g h ngrams V all distr shuffle =
         (Inr \<lparr>base = length h, off = 0, len = shape0 h ngrams, ncols = ncols ngrams\<rparr>,
          h @ [rs], g1)"
proof -
  let ?r = "\<lparr>base = length h, off = 0, len = shape0 h ngrams, ncols = ncols ngrams\<rparr>"
  let ?h1 = "h @ [rows_of h ngrams]"
  have copy: "rows_of ?h1 ?r = rows_of h ngrams"
    by (simp add: rows_of_def[of ?h1] buf_def shape0_def)
  obtain res g1 where t: "randomize_terms V distr shuffle (ncols ngrams) (ngram_terms ngrams all) g
      (rows_of h ngrams) = (res, g1)"
    by (cases "randomize_terms V distr shuffle (ncols ngrams) (ngram_terms ngrams all) g
      (rows_of h ngrams)")
  show thesis
  proof (cases res)
    case (Inl e)
    with t have "random_ngrams g h ngrams V all distr shuffle = (Inl e, h, g1)"
      by (simp add: random_ngrams_def np_array_def copy)
    with t Inl show ?thesis by (intro fail) simp_all
  next
    case (Inr rs)
    from t Inr have "same_frame (ngram_terms ngrams all) (rows_of h ngrams) rs"
      using randomize_terms_Inr[of V distr shuffle "ncols ngrams" "ngram_terms ngrams all" g
          "rows_of h ngrams" rs] by simp
    then have l: "length rs = shape0 h ngrams" by (simp add: same_frame_def shape0_def)
    have "store_rows ?h1 ?r rs = h @ [rs]"
      using l by (simp add: store_rows_def shape0_def rows_of_def)
    with t Inr have "random_ngrams g h ngrams V all distr shuffle = (Inr ?r, h @ [rs], g1)"
      by (simp add: random_ngrams_def np_array_def copy)
    with t Inr show ?thesis by (intro ok) simp_all
  qed
qed

lemma rows_of_fresh:
  "length rs = n \<Longrightarrow> rows_of (h @ [rs]) \<lparr>base = length h, off = 0, len = n, ncols = nc\<rparr> = rs"
  by (simp add: rows_of_def buf_def)

section \<open>The partitioner: claims\<close>

text \<open>
  C2 (the code departs from the claim). For 1000 rows and the fractions \<^verbatim>\<open>0.05\<close>,
  \<^verbatim>\<open>0.05\<close> of \<^verbatim>\<open>main\<close>, the binary64 value of \<^verbatim>\<open>1. - 0.05 - 0.05\<close> is just below
  0.9, the product with 1000 is just below 900 and \<^verbatim>\<open>int\<close> truncates it to 899: the
  train set has 899 rows, the validation set 51 and the test set 50, whatever the seed.
\<close>

theorem dataset_split_1000_rows:
  "\<exists>train valid test h1.
      dataset_split RandomState entropy [map (\<lambda>i. [i, i, i, i]) [0 ..< 1000]]
        \<lparr>base = 0, off = 0, len = 1000, ncols = 4\<rparr>
        (to_float (1 / 20)) (to_float (1 / 20)) (RSeed 12345) = (Inr (train, valid, test), h1) \<and>
      shape0 h1 train = 899 \<and> shape0 h1 valid = 51 \<and> shape0 h1 test = 50"
proof -
  let ?h = "[map (\<lambda>i. [i, i, i, i]) [0 ..< 1000]] :: heap"
  let ?x = "\<lparr>base = 0, off = 0, len = 1000, ncols = 4\<rparr> :: ndarray"
  let ?f = "Fin (3602879701896397 / 72057594037927936)"
  let ?h1 = "store_rows ?h ?x (fst (np_shuffle (rows_of ?h ?x)
               (split_generator RandomState entropy (RSeed 12345))))"
  have n: "shape0 ?h ?x = 1000" by (simp add: shape0_def rows_of_def buf_def)
  have pre: "fgt ?f (Fin 0)" "flt (fadd ?f ?f) (Fin 1)"
    by (simp_all add: fgt_def fl_sum_005 to_float_def Let_def)
  have i1: "split_index (shape0 ?h ?x) (fsub (fsub (Fin 1) ?f) ?f) = Inr 899"
    by (simp only: n sub_095 sub_090 split_index_899)
  have i2: "split_index (shape0 ?h ?x) (fsub (Fin 1) ?f) = Inr 950"
    by (simp only: n sub_095 split_index_950)
  have r: "dataset_split RandomState entropy ?h ?x ?f ?f (RSeed 12345) =
           (Inr (py_slice ?h1 ?x None (Some 899), py_slice ?h1 ?x (Some 899) (Some 950),
                 py_slice ?h1 ?x (Some 950) None), ?h1)"
    using pre(1) pre(1) pre(2) i1 i2 by (rule dataset_split_Inr) simp
  have n1: "length (rows_of ?h1 ?x) = 1000"
    using n by (simp add: rows_after_shuffle np_shuffle_length shape0_def)
  have "shape0 ?h1 (py_slice ?h1 ?x None (Some 899)) = 899"
    "shape0 ?h1 (py_slice ?h1 ?x (Some 899) (Some 950)) = 51"
    "shape0 ?h1 (py_slice ?h1 ?x (Some 950) None) = 50"
    unfolding shape0_def rows_of_py_slice n1 by (simp_all add: Let_def slice_index_def n1)
  with r show ?thesis unfolding literal_005 by blast
qed

text \<open>
  C3. When the fractions pass the two assertions (the test fraction being a binary64
  value, the array having fewer than \<open>2 ^ 63\<close> rows, as every NumPy array has), the call
  returns three arrays whose lengths sum to the number of rows of the input and whose
  rows, concatenated, are a permutation of the rows the input had before the call.
\<close>

theorem dataset_split_partition:
  assumes "fgt validation (Fin 0)" and "fgt test (Fin 0)"
    and "flt (fadd validation test) (Fin 1)"
    and "is_double test" and "shape0 h x < 2 ^ 63"
  shows "\<exists>train valid test' h1.
           dataset_split RandomState entropy h x validation test rng =
             (Inr (train, valid, test'), h1) \<and>
           shape0 h1 train + shape0 h1 valid + shape0 h1 test' = shape0 h x \<and>
           mset (rows_of h1 train @ rows_of h1 valid @ rows_of h1 test') = mset (rows_of h x)"
proof -
  from assms obtain i1 i2
    where i1: "split_index (shape0 h x) (fsub (fsub (Fin 1) validation) test) = Inr i1"
      and i2: "split_index (shape0 h x) (fsub (Fin 1) test) = Inr i2"
      and ge: "0 \<le> i1" and le: "i1 \<le> i2"
    by (rule split_indices)
  let ?g = "split_generator RandomState entropy rng"
  let ?h1 = "store_rows h x (fst (np_shuffle (rows_of h x) ?g))"
  let ?a = "py_slice ?h1 x None (Some i1)" and ?b = "py_slice ?h1 x (Some i1) (Some i2)"
    and ?c = "py_slice ?h1 x (Some i2) None"
  have r: "dataset_split RandomState entropy h x validation test rng = (Inr (?a, ?b, ?c), ?h1)"
    using assms(1-3) i1 i2 by (rule dataset_split_Inr) simp
  have cat: "rows_of ?h1 ?a @ rows_of ?h1 ?b @ rows_of ?h1 ?c = fst (np_shuffle (rows_of h x) ?g)"
    using split_partition[OF ge le, of ?h1 x] by (simp only: rows_after_shuffle)
  have m: "mset (rows_of ?h1 ?a @ rows_of ?h1 ?b @ rows_of ?h1 ?c) = mset (rows_of h x)"
    by (simp only: cat np_shuffle_mset)
  have "length (rows_of ?h1 ?a @ rows_of ?h1 ?b @ rows_of ?h1 ?c) = length (rows_of h x)"
    by (simp only: cat np_shuffle_length)
  then have l: "shape0 ?h1 ?a + shape0 ?h1 ?b + shape0 ?h1 ?c = shape0 h x"
    by (simp add: shape0_def)
  from r l m show ?thesis by blast
qed

theorem dataset_split_partition_witness:
  "\<exists>train valid test' h1.
     dataset_split (\<lambda>s i. 0) (\<lambda>i. 0) [[[0, 2], [3, 5], [4, 6], [7, 9]]]
       \<lparr>base = 0, off = 0, len = 4, ncols = 2\<rparr> (Fin (1 / 4)) (Fin (1 / 4)) (RSeed 12345) =
       (Inr (train, valid, test'), h1) \<and>
     shape0 h1 train + shape0 h1 valid + shape0 h1 test' = 4 \<and>
     mset (rows_of h1 train @ rows_of h1 valid @ rows_of h1 test') =
       mset [[0, 2], [3, 5], [4, 6], [7, 9]]"
proof -
  let ?h = "[[[0, 2], [3, 5], [4, 6], [7, 9]]] :: heap"
  let ?x = "\<lparr>base = 0, off = 0, len = 4, ncols = 2\<rparr> :: ndarray"
  have r: "rows_of ?h ?x = [[0, 2], [3, 5], [4, 6], [7, 9]]"
    by (simp add: rows_of_def buf_def)
  have a: "fgt (Fin (1 / 4)) (Fin 0)" by (simp add: fgt_def)
  have b: "flt (fadd (Fin (1 / 4)) (Fin (1 / 4))) (Fin 1)"
    by (simp add: fl_half to_float_def Let_def)
  have c: "is_double (Fin (1 / 4))"
    by (simp add: is_double_def fl_quarter to_float_def Let_def)
  have n: "shape0 ?h ?x = 4" by (simp add: shape0_def r)
  have d: "shape0 ?h ?x < 2 ^ 63" by (simp add: n)
  from dataset_split_partition[OF a a b c d, of "\<lambda>s i. 0" "\<lambda>i. 0" "RSeed 12345"]
  show ?thesis by (simp only: r n)
qed

text \<open>
  C6, as stated over the exact sum, fails: \<^verbatim>\<open>validation + test\<close> is a binary64 sum.
  For the binary64 fractions 0.5 and 0.49999999999999994 the exact sum is below 1, but
  it rounds to 1.0, the second assertion fails and the call raises.
\<close>

theorem dataset_split_rejects_rounded_sum:
  "0 < (1 / 2 :: rat) \<and> 0 < (9007199254740991 / 18014398509481984 :: rat) \<and>
   1 / 2 + 9007199254740991 / 18014398509481984 < (1 :: rat) \<and>
   is_double (Fin (1 / 2)) \<and> is_double (Fin (9007199254740991 / 18014398509481984)) \<and>
   dataset_split (\<lambda>s i. 0) (\<lambda>i. 0) [[[0, 2], [3, 5]]] \<lparr>base = 0, off = 0, len = 2, ncols = 2\<rparr>
     (Fin (1 / 2)) (Fin (9007199254740991 / 18014398509481984)) (RSeed 12345) =
     (Inl AssertionError, [[[0, 2], [3, 5]]])"
proof -
  have s: "(1 / 2 :: rat) + 9007199254740991 / 18014398509481984 =
           18014398509481983 / 18014398509481984"
    by simp
  have a: "is_double (Fin (1 / 2))"
    by (simp add: is_double_def fl_half to_float_def Let_def)
  have b: "is_double (Fin (9007199254740991 / 18014398509481984))"
    by (simp add: is_double_def fl_below_half to_float_def Let_def)
  have "\<not> flt (fadd (Fin (1 / 2)) (Fin (9007199254740991 / 18014398509481984))) (Fin 1)"
    by (simp only: fadd.simps s) (simp add: fl_below_one to_float_def Let_def)
  then have "dataset_split (\<lambda>s i. 0) (\<lambda>i. 0) [[[0, 2], [3, 5]]]
       \<lparr>base = 0, off = 0, len = 2, ncols = 2\<rparr>
       (Fin (1 / 2)) (Fin (9007199254740991 / 18014398509481984)) (RSeed 12345) =
     (Inl AssertionError, [[[0, 2], [3, 5]]])"
    by (simp add: dataset_split_assert)
  with a b show ?thesis by simp
qed

text \<open>
  C6 (amended). The call fails with \<^verbatim>\<open>AssertionError\<close> (the spec's
  \<open>InvalidSplitFraction\<close>) exactly when the fractions fail the source's two assertions,
  and then nothing has been shuffled: the store is returned as it was. For finite
  fractions \<open>a\<close> and \<open>b\<close> the assertions hold exactly when \<open>0 < a\<close>, \<open>0 < b\<close> and the
  binary64 sum \<open>fl (a + b)\<close>, the exact sum rounded to nearest, is below 1.
\<close>

theorem dataset_split_raises_iff:
  "(fst (dataset_split RandomState entropy h x validation test rng) = Inl AssertionError
      \<longleftrightarrow> \<not> (fgt validation (Fin 0) \<and> fgt test (Fin 0) \<and> flt (fadd validation test) (Fin 1))) \<and>
   (\<not> (fgt validation (Fin 0) \<and> fgt test (Fin 0) \<and> flt (fadd validation test) (Fin 1))
      \<longrightarrow> snd (dataset_split RandomState entropy h x validation test rng) = h) \<and>
   (\<forall>a b. validation = Fin a \<and> test = Fin b \<longrightarrow>
      ((fgt validation (Fin 0) \<and> fgt test (Fin 0) \<and> flt (fadd validation test) (Fin 1))
        \<longleftrightarrow> 0 < a \<and> 0 < b \<and> fl (a + b) < 1))"
proof (intro conjI allI impI)
  show "fst (dataset_split RandomState entropy h x validation test rng) = Inl AssertionError
      \<longleftrightarrow> \<not> (fgt validation (Fin 0) \<and> fgt test (Fin 0) \<and> flt (fadd validation test) (Fin 1))"
    using dataset_split_assert[of validation test RandomState entropy h x rng]
      dataset_split_not_assert[of validation test RandomState entropy h x rng]
    by auto
next
  assume "\<not> (fgt validation (Fin 0) \<and> fgt test (Fin 0) \<and> flt (fadd validation test) (Fin 1))"
  then show "snd (dataset_split RandomState entropy h x validation test rng) = h"
    by (simp add: dataset_split_assert)
next
  fix a b
  assume "validation = Fin a \<and> test = Fin b"
  then show "(fgt validation (Fin 0) \<and> fgt test (Fin 0) \<and> flt (fadd validation test) (Fin 1))
        \<longleftrightarrow> 0 < a \<and> 0 < b \<and> fl (a + b) < 1"
    by (auto simp: fgt_def to_float_def Let_def)
qed

theorem dataset_split_raises_iff_witness:
  "dataset_split (\<lambda>s i. 0) (\<lambda>i. 0) [[[0, 2], [3, 5]]] \<lparr>base = 0, off = 0, len = 2, ncols = 2\<rparr>
     (Fin (3 / 4)) (Fin (1 / 4)) RNone = (Inl AssertionError, [[[0, 2], [3, 5]]])"
proof -
  let ?d = "dataset_split (\<lambda>s i. 0) (\<lambda>i. 0) [[[0, 2], [3, 5]]]
     \<lparr>base = 0, off = 0, len = 2, ncols = 2\<rparr> (Fin (3 / 4)) (Fin (1 / 4)) RNone"
  have v: "\<not> (fgt (Fin (3 / 4)) (Fin 0) \<and> fgt (Fin (1 / 4)) (Fin 0) \<and>
              flt (fadd (Fin (3 / 4)) (Fin (1 / 4))) (Fin 1))"
    by (simp add: fl_one to_float_def Let_def)
  from dataset_split_raises_iff[of "\<lambda>s i. 0" "\<lambda>i. 0" "[[[0, 2], [3, 5]]]"
      "\<lparr>base = 0, off = 0, len = 2, ncols = 2\<rparr>" "Fin (3 / 4)" "Fin (1 / 4)" RNone] v
  have "fst ?d = Inl AssertionError" and "snd ?d = [[[0, 2], [3, 5]]]" by blast+
  then show ?thesis by (simp add: prod_eq_iff)
qed

section \<open>The control-set generator and the store: claims\<close>

lemma random_ngrams_store:
  "take (length h) (fst (snd (random_ngrams g h ngrams V all distr shuffle))) = h"
  by (cases rule: random_ngrams_cases[of V distr shuffle ngrams all g h]) simp_all

lemma random_ngrams_Inr:
  assumes "random_ngrams g h ngrams V all distr shuffle = (Inr r, h2, g2)"
  shows "r = \<lparr>base = length h, off = 0, len = shape0 h ngrams, ncols = ncols ngrams\<rparr>"
    and "h2 = h @ [rows_of h2 r]"
    and "same_frame (ngram_terms ngrams all) (rows_of h ngrams) (rows_of h2 r)"
    and "in_vocab V (rows_of h ngrams) \<Longrightarrow> shape_ok (ncols ngrams) (rows_of h ngrams)
           \<Longrightarrow> in_vocab V (rows_of h2 r)"
proof -
  let ?r = "\<lparr>base = length h, off = 0, len = shape0 h ngrams, ncols = ncols ngrams\<rparr>"
  obtain rs where t: "fst (randomize_terms V distr shuffle (ncols ngrams)
        (ngram_terms ngrams all) g (rows_of h ngrams)) = Inr rs"
    and r: "r = ?r" and h2: "h2 = h @ [rs]"
  proof (cases rule: random_ngrams_cases[of V distr shuffle ngrams all g h])
    case (fail e g1)
    with assms show ?thesis by simp
  next
    case (ok rs g1)
    with assms show ?thesis by (intro that[of rs]) simp_all
  qed
  note inv = randomize_terms_Inr[OF t]
  from inv have "length rs = shape0 h ngrams" by (simp add: same_frame_def shape0_def)
  then have rows: "rows_of h2 r = rs" unfolding r h2 by (rule rows_of_fresh)
  show "r = ?r" by (rule r)
  show "h2 = h @ [rows_of h2 r]" using h2 rows by simp
  show "same_frame (ngram_terms ngrams all) (rows_of h ngrams) (rows_of h2 r)"
    using inv rows by simp
  show "in_vocab V (rows_of h2 r)"
    if "in_vocab V (rows_of h ngrams)" and "shape_ok (ncols ngrams) (rows_of h ngrams)"
    using inv rows that by simp
qed

lemma random_ngrams_total:
  assumes "0 < ncols ngrams" and "shuffle \<or> choice_ok V distr"
  shows "\<exists>r h2 g2. random_ngrams g h ngrams V all distr shuffle = (Inr r, h2, g2)"
proof -
  have "\<forall>t \<in> set (ngram_terms ngrams all). t < ncols ngrams"
    using assms(1) by (auto simp: ngram_terms_def)
  from randomize_terms_total[OF this assms(2)] obtain rs
    where t: "fst (randomize_terms V distr shuffle (ncols ngrams) (ngram_terms ngrams all) g
                (rows_of h ngrams)) = Inr rs"
    by blast
  show ?thesis
  proof (cases rule: random_ngrams_cases[of V distr shuffle ngrams all g h])
    case (fail e g1)
    with t show ?thesis by simp
  next
    case (ok rs g1)
    then show ?thesis by blast
  qed
qed

text \<open>
  C7. The control-set generator never changes an array that existed before the call, so
  the input matrix is not mutated. Whenever it returns a matrix, that matrix has the row
  count, the column count and the row lengths of the input, and with \<open>all = False\<close> every
  entry outside column 0 equals the input's. It does return a matrix whenever the input
  has at least one column and either \<open>shuffle\<close> is set or the arguments of
  \<^verbatim>\<open>np.random.choice\<close> are valid.
\<close>

theorem random_ngrams_shape_and_frame:
  "take (length h) (fst (snd (random_ngrams g h ngrams V all distr shuffle))) = h \<and>
   (\<forall>r h2 g2. random_ngrams g h ngrams V all distr shuffle = (Inr r, h2, g2) \<longrightarrow>
      shape0 h2 r = shape0 h ngrams \<and> ncols r = ncols ngrams \<and>
      (\<forall>i < shape0 h ngrams. length (rows_of h2 r ! i) = length (rows_of h ngrams ! i)) \<and>
      (\<not> all \<longrightarrow>
         (\<forall>i < shape0 h ngrams. \<forall>j. j \<noteq> 0 \<longrightarrow> rows_of h2 r ! i ! j = rows_of h ngrams ! i ! j))) \<and>
   (0 < ncols ngrams \<and> (shuffle \<or> choice_ok V distr) \<longrightarrow>
      (\<exists>r h2 g2. random_ngrams g h ngrams V all distr shuffle = (Inr r, h2, g2)))"
proof -
  have a: "take (length h) (fst (snd (random_ngrams g h ngrams V all distr shuffle))) = h"
    by (rule random_ngrams_store)
  have b: "shape0 h2 r = shape0 h ngrams \<and> ncols r = ncols ngrams \<and>
      (\<forall>i < shape0 h ngrams. length (rows_of h2 r ! i) = length (rows_of h ngrams ! i)) \<and>
      (\<not> all \<longrightarrow>
         (\<forall>i < shape0 h ngrams. \<forall>j. j \<noteq> 0 \<longrightarrow> rows_of h2 r ! i ! j = rows_of h ngrams ! i ! j))"
    if res: "random_ngrams g h ngrams V all distr shuffle = (Inr r, h2, g2)" for r h2 g2
  proof -
    note facts = random_ngrams_Inr[OF res]
    from facts(3) have 1: "shape0 h2 r = shape0 h ngrams"
      by (simp add: same_frame_def shape0_def)
    from facts(1) have 2: "ncols r = ncols ngrams" by simp
    from facts(3)
    have 3: "\<forall>i < shape0 h ngrams. length (rows_of h2 r ! i) = length (rows_of h ngrams ! i)"
      by (simp add: same_frame_def shape0_def)
    have 4: "\<forall>i < shape0 h ngrams. \<forall>j. j \<noteq> 0 \<longrightarrow> rows_of h2 r ! i ! j = rows_of h ngrams ! i ! j"
      if "\<not> all"
    proof -
      from that have "ngram_terms ngrams all = [0]" by (simp add: ngram_terms_def)
      with facts(3) show ?thesis by (simp add: same_frame_def shape0_def)
    qed
    from 1 2 3 4 show ?thesis by blast
  qed
  have c: "\<exists>r h2 g2. random_ngrams g h ngrams V all distr shuffle = (Inr r, h2, g2)"
    if "0 < ncols ngrams \<and> (shuffle \<or> choice_ok V distr)"
    using that random_ngrams_total by blast
  from a b c show ?thesis by blast
qed

theorem random_ngrams_shape_and_frame_witness:
  "take 1 (fst (snd (random_ngrams (\<lambda>i. i + 3) [[[0, 5], [2, 6], [3, 7]]]
      \<lparr>base = 0, off = 0, len = 3, ncols = 2\<rparr> 10 False None False))) = [[[0, 5], [2, 6], [3, 7]]] \<and>
   (\<exists>r h2 g2. random_ngrams (\<lambda>i. i + 3) [[[0, 5], [2, 6], [3, 7]]]
      \<lparr>base = 0, off = 0, len = 3, ncols = 2\<rparr> 10 False None False = (Inr r, h2, g2))"
proof -
  have ok: "0 < ncols \<lparr>base = 0, off = 0, len = 3, ncols = 2\<rparr> \<and> (False \<or> choice_ok 10 None)"
    by (simp add: choice_ok_def)
  from random_ngrams_shape_and_frame[of "[[[0, 5], [2, 6], [3, 7]]]" "\<lambda>i. i + 3"
      "\<lparr>base = 0, off = 0, len = 3, ncols = 2\<rparr>" 10 False None False] ok
  show ?thesis by simp
qed

text \<open>
  C8. For an input matrix of the stated shape whose entries are all below
  \<open>vocab_size\<close>, every matrix the generator returns has all its entries below
  \<open>vocab_size\<close>, in the shuffle mode and in the sampling mode; and it returns one whenever
  the input has at least one column and either \<open>shuffle\<close> is set or the arguments of
  \<^verbatim>\<open>np.random.choice\<close> are valid.
\<close>

theorem random_ngrams_in_vocab:
  assumes "in_vocab V (rows_of h ngrams)" and "shape_ok (ncols ngrams) (rows_of h ngrams)"
  shows "(\<forall>r h2 g2. random_ngrams g h ngrams V all distr shuffle = (Inr r, h2, g2) \<longrightarrow>
            in_vocab V (rows_of h2 r)) \<and>
         (0 < ncols ngrams \<and> (shuffle \<or> choice_ok V distr) \<longrightarrow>
            (\<exists>r h2 g2. random_ngrams g h ngrams V all distr shuffle = (Inr r, h2, g2) \<and>
               in_vocab V (rows_of h2 r)))"
proof -
  have a: "in_vocab V (rows_of h2 r)"
    if "random_ngrams g h ngrams V all distr shuffle = (Inr r, h2, g2)" for r h2 g2
    using random_ngrams_Inr(4)[OF that assms] .
  have b: "\<exists>r h2 g2. random_ngrams g h ngrams V all distr shuffle = (Inr r, h2, g2) \<and>
               in_vocab V (rows_of h2 r)"
    if ok: "0 < ncols ngrams \<and> (shuffle \<or> choice_ok V distr)"
  proof -
    from ok have "0 < ncols ngrams" and "shuffle \<or> choice_ok V distr" by simp_all
    from random_ngrams_total[OF this, of g h all] obtain r h2 g2
      where res: "random_ngrams g h ngrams V all distr shuffle = (Inr r, h2, g2)" by blast
    from a[OF res] res show ?thesis by blast
  qed
  from a b show ?thesis by blast
qed

theorem random_ngrams_in_vocab_witness:
  "\<exists>r h2 g2. random_ngrams (\<lambda>i. i + 3) [[[0, 5], [2, 6], [3, 7]]]
      \<lparr>base = 0, off = 0, len = 3, ncols = 2\<rparr> 8 True None True = (Inr r, h2, g2) \<and>
     in_vocab 8 (rows_of h2 r)"
proof -
  let ?h = "[[[0, 5], [2, 6], [3, 7]]] :: heap"
  let ?x = "\<lparr>base = 0, off = 0, len = 3, ncols = 2\<rparr> :: ndarray"
  have r: "rows_of ?h ?x = [[0, 5], [2, 6], [3, 7]]" by (simp add: rows_of_def buf_def)
  have a: "in_vocab 8 (rows_of ?h ?x)" unfolding r by (simp add: in_vocab_def)
  have b: "shape_ok (ncols ?x) (rows_of ?h ?x)" unfolding r by (simp add: shape_ok_def)
  from random_ngrams_in_vocab[OF a b, of "\<lambda>i. i + 3" True None True]
  show ?thesis by simp
qed












end
